theory Spec2Isabelle
  imports Main "HOL-Library.Sublist"
begin

section \<open>Text: characters, lowercasing, stripping, substring search\<close>

text \<open>
  A Python \<open>str\<close> is a sequence of code points. It is modelled as a HOL \<open>string\<close>
  whose characters stand for the code points 0 to 255 (ASCII and Latin-1), and
  \<open>length\<close> counts code points as Python's \<open>len\<close> does. The three character
  classes below are Python's on that range.
\<close>

definition code_point :: "char \<Rightarrow> nat" where
  "code_point c = of_char c"

text \<open>\<open>str.lower()\<close>, one character: A-Z and the Latin-1 capitals move up by 32.\<close>

definition lower_char :: "char \<Rightarrow> char" where
  "lower_char c =
     (let n = code_point c in
      if (65 \<le> n \<and> n \<le> 90) \<or> (192 \<le> n \<and> n \<le> 214) \<or> (216 \<le> n \<and> n \<le> 222)
      then char_of (n + 32) else c)"

definition lower :: "string \<Rightarrow> string" where
  "lower s = map lower_char s"

text \<open>\<open>str.isspace()\<close>, one character: what \<open>str.strip()\<close> removes at both ends.\<close>

definition isspace :: "char \<Rightarrow> bool" where
  "isspace c =
     (let n = code_point c in (9 \<le> n \<and> n \<le> 13) \<or> (28 \<le> n \<and> n \<le> 32) \<or> n = 133 \<or> n = 160)"

definition strip :: "string \<Rightarrow> string" where
  "strip s = rev (dropWhile isspace (rev (dropWhile isspace s)))"

text \<open>The class \<open>\w\<close> of the \<open>re\<close> module on a \<open>str\<close> pattern: alphanumerics and the underscore.\<close>

definition is_word_char :: "char \<Rightarrow> bool" where
  "is_word_char c =
     (let n = code_point c in
      (48 \<le> n \<and> n \<le> 57) \<or> (65 \<le> n \<and> n \<le> 90) \<or> n = 95 \<or> (97 \<le> n \<and> n \<le> 122)
      \<or> n = 170 \<or> n = 178 \<or> n = 179 \<or> n = 181 \<or> n = 185 \<or> n = 186
      \<or> (188 \<le> n \<and> n \<le> 190) \<or> (192 \<le> n \<and> n \<le> 214) \<or> (216 \<le> n \<and> n \<le> 246)
      \<or> (248 \<le> n \<and> n \<le> 255))"

text \<open>
  Python's \<open>w in t\<close> on strings is contiguous substring search: \<^const>\<open>sublist\<close>,
  which the library theory Sublist defines by \<open>\<exists>ps ss. t = ps @ w @ ss\<close> and computes
  by trying \<^const>\<open>prefix\<close> at every position.
\<close>

section \<open>The guardrail\<close>

text \<open>
  \<open>BANNED_PHRASES = re.compile(r"\b(sorry|apologiz\w*)\b", re.IGNORECASE)\<close>.
  A position of the matcher in the text is the character before it (none at the start)
  and the text from it on; \<open>\b\<close> looks at both sides.
\<close>

type_synonym position = "char option \<times> string"

text \<open>\<open>\b\<close>: a word character on exactly one side; the ends of the text count as non-word.\<close>

definition word_before :: "char option \<Rightarrow> bool" where
  "word_before prev = (case prev of None \<Rightarrow> False | Some c \<Rightarrow> is_word_char c)"

definition word_after :: "string \<Rightarrow> bool" where
  "word_after s = (case s of [] \<Rightarrow> False | c # cs \<Rightarrow> is_word_char c)"

definition word_boundary :: "position \<Rightarrow> bool" where
  "word_boundary pos = (word_before (fst pos) \<noteq> word_after (snd pos))"

text \<open>
  A literal under \<open>re.IGNORECASE\<close>: each character of the text is compared lowercased
  with the pattern's. The result is the position after the literal.
\<close>

fun match_literal :: "string \<Rightarrow> position \<Rightarrow> position option" where
  "match_literal [] pos = Some pos"
| "match_literal (p # ps) (prev, []) = None"
| "match_literal (p # ps) (prev, c # cs) =
     (if lower_char c = lower_char p then match_literal ps (Some c, cs) else None)"

text \<open>
  \<open>\w*\<close> is greedy: the positions it can stop at, the longest run of word characters
  first, then shorter ones in the order backtracking tries them.
\<close>

fun word_star :: "position \<Rightarrow> position list" where
  "word_star (prev, []) = [(prev, [])]"
| "word_star (prev, c # cs) =
     (if is_word_char c then word_star (Some c, cs) @ [(prev, c # cs)] else [(prev, c # cs)])"

text \<open>
  A match of the whole pattern starting at this position: the leading \<open>\b\<close>, then the
  first alternative \<open>sorry\<close> with the trailing \<open>\b\<close>, and when that fails the second
  alternative \<open>apologiz\w*\<close> with the trailing \<open>\b\<close> tried at every stop of \<open>\w*\<close>.
  The result is the position after the match.
\<close>

definition BANNED_PHRASES_match :: "position \<Rightarrow> position option" where
  "BANNED_PHRASES_match pos =
     (if \<not> word_boundary pos then None
      else case (case match_literal ''sorry'' pos of
                   None \<Rightarrow> None
                 | Some e \<Rightarrow> if word_boundary e then Some e else None) of
             Some e \<Rightarrow> Some e
           | None \<Rightarrow>
               (case match_literal ''apologiz'' pos of
                  None \<Rightarrow> None
                | Some q \<Rightarrow> List.find word_boundary (word_star q)))"

text \<open>
  \<open>BANNED_PHRASES.sub("(removed)", text)\<close>, from a position on: scan from the left; at
  a match emit the marker and go on after the match, otherwise copy one character and
  move on. (A match of this pattern is never empty, which is what the termination proof
  shows.)
\<close>

function BANNED_PHRASES_sub :: "position \<Rightarrow> string" where
  "BANNED_PHRASES_sub (prev, s) =
     (case BANNED_PHRASES_match (prev, s) of
        Some e \<Rightarrow> ''(removed)'' @ BANNED_PHRASES_sub e
      | None \<Rightarrow> (case s of [] \<Rightarrow> [] | c # cs \<Rightarrow> c # BANNED_PHRASES_sub (Some c, cs)))"
  by pat_completeness auto
termination
proof (relation "measure (\<lambda>pos. length (snd pos))")
  show "wf (measure (\<lambda>pos. length (snd pos)))" by simp
next
  fix prev :: "char option" and s :: string and e :: position
  assume m: "BANNED_PHRASES_match (prev, s) = Some e"
  have lit: "length (snd q) < length (snd pos)"
    if "match_literal (p # ps) pos = Some q" for p ps pos q
    using that
  proof (induction ps arbitrary: p pos)
    case Nil
    then show ?case
      by (cases pos; cases "snd pos") (auto split: if_splits)
  next
    case (Cons a ps)
    obtain pv t where pos: "pos = (pv, t)" by (cases pos)
    show ?case
    proof (cases t)
      case Nil
      with Cons.prems pos show ?thesis by simp
    next
      case (Cons c cs)
      with Cons.prems pos have "match_literal (a # ps) (Some c, cs) = Some q"
        by (simp split: if_splits)
      from Cons.IH [OF this] Cons pos show ?thesis by simp
    qed
  qed
  have star: "length (snd q) \<le> length (snd pos)" if "q \<in> set (word_star pos)" for q pos
    using that
  proof (induction pos rule: word_star.induct)
    case (1 prev)
    then show ?case by simp
  next
    case (2 prev c cs)
    then show ?case by (auto split: if_splits)
  qed
  show "(e, prev, s) \<in> measure (\<lambda>pos. length (snd pos))"
  proof -
    have "length (snd e) < length s"
    proof (cases "match_literal ''sorry'' (prev, s)")
      case None
      with m obtain q where q: "match_literal ''apologiz'' (prev, s) = Some q"
        and f: "List.find word_boundary (word_star q) = Some e"
        by (auto simp: BANNED_PHRASES_match_def split: if_splits option.splits)
      from f have "e \<in> set (word_star q)"
        by (auto simp: find_Some_iff)
      from star [OF this] lit [OF q] show ?thesis by simp
    next
      case (Some e1)
      note s1 = lit [OF Some]
      show ?thesis
      proof (cases "word_boundary e1")
        case True
        with m Some have "e = e1"
          by (auto simp: BANNED_PHRASES_match_def split: if_splits)
        with s1 show ?thesis by simp
      next
        case False
        with m Some obtain q where q: "match_literal ''apologiz'' (prev, s) = Some q"
          and f: "List.find word_boundary (word_star q) = Some e"
          by (auto simp: BANNED_PHRASES_match_def split: if_splits option.splits)
        from f have "e \<in> set (word_star q)"
          by (auto simp: find_Some_iff)
        from star [OF this] lit [OF q] show ?thesis by simp
      qed
    qed
    then show ?thesis by simp
  qed
next
  fix prev :: "char option" and s :: string and c :: char and cs :: string
  assume "s = c # cs"
  then show "((Some c, cs), prev, s) \<in> measure (\<lambda>pos. length (snd pos))" by simp
qed

declare BANNED_PHRASES_sub.simps [simp del]

text \<open>\<open>guard_output\<close>: \<open>if not text: return text\<close>, then the substitution.\<close>

definition guard_output :: "string \<Rightarrow> string" where
  "guard_output text = (if text = [] then text else BANNED_PHRASES_sub (None, text))"

text \<open>
  Three notions used to state what the substitution does. The character before the
  position after a stretch \<open>m\<close> of text; the words the pattern matches, as the two
  alternatives read; and a text in which no position starts a match.
\<close>

definition last_opt :: "char option \<Rightarrow> string \<Rightarrow> char option" where
  "last_opt prev m = (if m = [] then prev else Some (last m))"

definition banned_word :: "string \<Rightarrow> bool" where
  "banned_word w = (lower w = ''sorry'' \<or> prefix ''apologiz'' (lower w))"

fun match_free :: "position \<Rightarrow> bool" where
  "match_free (prev, []) = (BANNED_PHRASES_match (prev, []) = None)"
| "match_free (prev, c # cs) = (BANNED_PHRASES_match (prev, c # cs) = None \<and> match_free (Some c, cs))"

section \<open>The context model\<close>

text \<open>
  \<open>SupportContext\<close>, the pydantic model, with its one global instance \<open>CTX\<close> passed
  explicitly. \<open>extra\<close> is a dictionary from strings to values of any type.
\<close>

record 'v SupportContext =
  name :: string
  is_premium_user :: bool
  issue_type :: "string option"
  last_agent :: "string option"
  extra :: "string \<rightharpoonup> 'v"

definition default_context :: "'v SupportContext" where
  "default_context =
     \<lparr>name = ''Guest'', is_premium_user = False, issue_type = None, last_agent = None,
      extra = Map.empty\<rparr>"

section \<open>Tools\<close>

text \<open>
  The functions under \<open>@function_tool\<close>, with \<open>CTX\<close> as a parameter. The two gates are
  the lambdas attached as \<open>is_enabled\<close>; each handler calls its gate on the context it is
  given.
\<close>

definition classify_issue :: "string \<Rightarrow> string" where
  "classify_issue user_text =
     (let t = lower user_text in
      if list_ex (\<lambda>w. sublist w t) [''refund'', ''invoice'', ''bill'', ''payment'']
      then ''billing''
      else if list_ex (\<lambda>w. sublist w t)
                [''error'', ''crash'', ''down'', ''restart'', ''bug'', ''technical'']
      then ''technical''
      else ''general'')"

definition get_invoice :: "'v SupportContext \<Rightarrow> string \<Rightarrow> string" where
  "get_invoice CTX dummy =
     (let who = name CTX;
          tier = (if is_premium_user CTX then ''Premium'' else ''Free'')
      in ''Invoice for '' @ who @ '': Plan='' @ tier
           @ '', Last payment: 2025-08-01, Amount: $19.00'')"

definition refund_is_enabled :: "'v SupportContext \<Rightarrow> bool" where
  "refund_is_enabled ctx = is_premium_user ctx"

definition refund :: "'v SupportContext \<Rightarrow> string \<Rightarrow> string" where
  "refund CTX dummy =
     (if \<not> refund_is_enabled CTX
      then ''Refund tool disabled: premium membership required.''
      else ''Refund initiated for '' @ name CTX
             @ ''. You will receive confirmation via email.'')"

definition restart_service_is_enabled :: "'v SupportContext \<Rightarrow> bool" where
  "restart_service_is_enabled ctx = (issue_type ctx = Some ''technical'')"

definition restart_service :: "'v SupportContext \<Rightarrow> string \<Rightarrow> string" where
  "restart_service CTX dummy =
     (if \<not> restart_service_is_enabled CTX
      then ''Restart tool disabled: this request is not a technical issue.''
      else ''Service restart command sent. Please wait ~2 minutes and try again.'')"

definition check_service_status :: "string \<Rightarrow> string" where
  "check_service_status dummy =
     ''All systems operational, no outages detected in your region.''"

definition general_faq :: "string \<Rightarrow> string" where
  "general_faq user_text =
     ''Here's some info: You can update profile in Settings > Account. ''
     @ ''Type 'invoice', 'refund', or describe a technical error for specialized help.''"

section \<open>Agents and the runner\<close>

datatype agent = triage_agent | billing_agent | technical_agent | general_agent

text \<open>
  What the program can raise: \<open>input\<close> at the end of the input, an attribute access or
  assignment on an object that does not allow it, and whatever \<open>Runner.run\<close> raises
  itself. Nothing in the program catches any of them.
\<close>

datatype error = EOFError | AttributeError | RunError

text \<open>
  \<open>Runner.run\<close> belongs to the agents SDK, not to this program: it is a parameter. It is
  given the agent, the text and the context, may depend on a state \<open>'r\<close> of its own
  (so two runs on the same text may differ). It gets the context to read (a copy,
  \<open>CTX.dict()\<close>, and the tools above, which only read \<open>CTX\<close>) and does not write it.
  What the call gives back is one of:
  \<^item> a result object with a \<open>final_output\<close>, a text or \<open>None\<close>, that can be assigned;
  \<^item> an object with no \<open>final_output\<close> that takes the assignment;
  \<^item> an object with no \<open>final_output\<close> that refuses the assignment, as the coroutine
    object does that an \<open>async def run\<close> returns when it is called without \<open>await\<close>;
  \<^item> no object: the call raises.
\<close>

datatype run_outcome = RunResult "string option" | Plain_object | Coroutine | Raises

type_synonym ('r, 'v) runner =
  "'r \<Rightarrow> agent \<Rightarrow> string \<Rightarrow> 'v SupportContext \<Rightarrow> run_outcome \<times> 'r"

text \<open>
  \<open>run_with_context\<close>: run the agent, read \<open>final_output\<close> with the default \<open>""\<close>, pass it
  through the guardrail (\<open>None\<close> is falsy, so \<open>guard_output\<close> returns it as it is) and
  assign it back. The result is the guarded \<open>final_output\<close>, or the error raised by the
  run or by the assignment.
\<close>

definition run_with_context ::
  "('r, 'v) runner \<Rightarrow> 'r \<Rightarrow> 'v SupportContext \<Rightarrow> agent \<Rightarrow> string
     \<Rightarrow> error + (string option \<times> 'r)" where
  "run_with_context Runner_run r CTX agent text =
     (case Runner_run r agent text CTX of
        (result, r') \<Rightarrow>
          (case result of
             Raises \<Rightarrow> Inl RunError
           | Coroutine \<Rightarrow> Inl AttributeError
           | Plain_object \<Rightarrow> Inr (Some (guard_output []), r')
           | RunResult final_output \<Rightarrow> Inr (map_option guard_output final_output, r')))"

section \<open>The console loop\<close>

text \<open>
  What a turn does to the outside, in order: a call of \<open>Runner.run\<close> on an agent (with
  the text and the context it is called on) and the lines printed, each kept as the
  values it shows: the category of the handoff line, and the category (which the line
  shows title-cased) and the answer of the agent's line.
\<close>

datatype 'v event =
    Run agent string "'v SupportContext"
  | Print_handoff string
  | Print_answer string "string option"
  | Print_goodbye

text \<open>
  The pattern of a \<open>re.search(..., re.I)\<close> in the loop is an alternation of literals: the
  search tries every position from the left and every alternative at it. Only whether
  there is a match is used.
\<close>

fun re_search :: "string list \<Rightarrow> position \<Rightarrow> bool" where
  "re_search alts (prev, []) = list_ex (\<lambda>a. match_literal a (prev, []) \<noteq> None) alts"
| "re_search alts (prev, c # cs) =
     (list_ex (\<lambda>a. match_literal a (prev, c # cs) \<noteq> None) alts \<or> re_search alts (Some c, cs))"

text \<open>
  Step 1, TRIAGE: run the triage agent, normalise its answer
  \<open>(final_output or "").strip().lower()\<close>, fall back to "general", write the context.
  When the run raises, nothing has been written.
\<close>

definition triage ::
  "('r, 'v) runner \<Rightarrow> 'r \<Rightarrow> 'v SupportContext \<Rightarrow> string
     \<Rightarrow> error + (string \<times> 'v SupportContext \<times> 'r)" where
  "triage Runner_run r CTX user_text =
     (case run_with_context Runner_run r CTX triage_agent user_text of
        Inl e \<Rightarrow> Inl e
      | Inr (final_output, r') \<Rightarrow>
          (let answer = lower (strip (case final_output of None \<Rightarrow> [] | Some t \<Rightarrow> t));
               issue = (if answer \<notin> {''billing'', ''technical'', ''general''}
                        then ''general'' else answer)
           in Inr (issue, CTX\<lparr>issue_type := Some issue, last_agent := Some ''triage''\<rparr>, r')))"

text \<open>Step 2, ROUTE / HANDOFF: the agent to run and the text it is run on.\<close>

definition route :: "string \<Rightarrow> string \<Rightarrow> agent \<times> string" where
  "route issue user_text =
     (if issue = ''billing'' then
        (billing_agent,
         if re_search [''refund'', ''chargeback'', ''money back''] (None, user_text)
         then ''refund'' else ''invoice'')
      else if issue = ''technical'' then
        (technical_agent,
         if re_search [''restart'', ''crash'', ''down'', ''error''] (None, user_text)
         then ''restart'' else ''status'')
      else (general_agent, user_text))"

text \<open>
  One turn, the loop body after the exit test: triage, route, step 3, print the answer
  under \<open>CTX.issue_type.title()\<close>, and step 4,
  \<open>CTX.last_agent = CTX.issue_type; CTX.issue_type = None\<close>. A turn that raises stops
  there: the result is the error with the runner state and the context as they are at
  that point and the events up to it.
\<close>

definition turn ::
  "('r, 'v) runner \<Rightarrow> 'r \<times> 'v SupportContext \<Rightarrow> string
     \<Rightarrow> (error \<times> ('r \<times> 'v SupportContext) \<times> 'v event list)
         + (('r \<times> 'v SupportContext) \<times> 'v event list)" where
  "turn Runner_run st user_text =
     (case st of (r, CTX) \<Rightarrow>
      (case triage Runner_run r CTX user_text of
         Inl e \<Rightarrow> Inl (e, (r, CTX), [Run triage_agent user_text CTX])
       | Inr (issue, CTX1, r1) \<Rightarrow>
       (case route issue user_text of (agent, hint) \<Rightarrow>
        (case run_with_context Runner_run r1 CTX1 agent hint of
           Inl e \<Rightarrow>
             Inl (e, (r1, CTX1),
                  [Run triage_agent user_text CTX, Print_handoff issue, Run agent hint CTX1])
         | Inr (final_output, r2) \<Rightarrow>
         (case issue_type CTX1 of
            None \<Rightarrow>
              Inl (AttributeError, (r2, CTX1),
                   [Run triage_agent user_text CTX, Print_handoff issue, Run agent hint CTX1])
          | Some label \<Rightarrow>
              (let CTX2 = CTX1\<lparr>last_agent := issue_type CTX1\<rparr>;
                   CTX3 = CTX2\<lparr>issue_type := None\<rparr>
               in Inr ((r2, CTX3),
                       [Run triage_agent user_text CTX, Print_handoff issue,
                        Run agent hint CTX1, Print_answer label final_output])))))))"

datatype control = Break | Continue

text \<open>The loop body on one line of input: strip it, leave on "exit" or "quit", else a turn.\<close>

definition loop_body ::
  "('r, 'v) runner \<Rightarrow> 'r \<times> 'v SupportContext \<Rightarrow> string
     \<Rightarrow> (error \<times> ('r \<times> 'v SupportContext) \<times> 'v event list)
         + (control \<times> ('r \<times> 'v SupportContext) \<times> 'v event list)" where
  "loop_body Runner_run st line =
     (let user_text = strip line in
      if lower user_text \<in> {''exit'', ''quit''} then Inr (Break, st, [Print_goodbye])
      else (case turn Runner_run st user_text of
              Inl x \<Rightarrow> Inl x
            | Inr (st', evs) \<Rightarrow> Inr (Continue, st', evs)))"

text \<open>
  \<open>while True\<close> over the lines that \<open>input\<close> will return. When they run out before an exit
  word, \<open>input\<close> raises \<open>EOFError\<close>; an error raised in a turn ends the loop as well. The
  result keeps the state and the events up to the end, normal or not.
\<close>

datatype outcome = Exited | Raised error

fun session_loop ::
  "('r, 'v) runner \<Rightarrow> 'r \<times> 'v SupportContext \<Rightarrow> string list
     \<Rightarrow> outcome \<times> ('r \<times> 'v SupportContext) \<times> 'v event list" where
  "session_loop Runner_run st [] = (Raised EOFError, st, [])"
| "session_loop Runner_run st (line # lines) =
     (case loop_body Runner_run st line of
        Inl (e, st', evs) \<Rightarrow> (Raised e, st', evs)
      | Inr (Break, st', evs) \<Rightarrow> (Exited, st', evs)
      | Inr (Continue, st', evs) \<Rightarrow>
          (case session_loop Runner_run st' lines of
             (out, st'', evs') \<Rightarrow> (out, st'', evs @ evs')))"

text \<open>The start of the session: the two prompts fill \<open>name\<close> and \<open>is_premium_user\<close>.\<close>

definition session_start :: "'v SupportContext \<Rightarrow> string \<Rightarrow> string \<Rightarrow> 'v SupportContext" where
  "session_start CTX name_line premium_line =
     (let name0 = (if strip name_line = [] then ''Guest'' else strip name_line);
          premium = prefix ''y'' (lower (strip premium_line))
      in CTX\<lparr>name := name0, is_premium_user := premium\<rparr>)"

section \<open>Two runners for concrete runs\<close>

text \<open>
  A backend that follows the agents' instructions by rule, calling the tools on the
  context: triage answers with \<open>classify_issue\<close>, billing uses \<open>refund\<close> when asked for a
  refund and \<open>get_invoice\<close> otherwise, technical uses \<open>restart_service\<close> when asked for a
  restart and \<open>check_service_status\<close> otherwise, general uses \<open>general_faq\<close>.
\<close>

definition rule_runner :: "(unit, 'v) runner" where
  "rule_runner r agent text CTX =
     (RunResult
        (case agent of
           triage_agent \<Rightarrow> Some (classify_issue text)
         | billing_agent \<Rightarrow>
             Some (if text = ''refund'' then refund CTX text else get_invoice CTX text)
         | technical_agent \<Rightarrow>
             Some (if text = ''restart'' then restart_service CTX text
                   else check_service_status text)
         | general_agent \<Rightarrow> Some (general_faq text)),
      r)"


section \<open>Unfolding the character classes\<close>

lemmas char_class_defs = code_point_def lower_char_def isspace_def is_word_char_def

section \<open>The classifier\<close>

text \<open>
  C1. For every text, \<open>classify_issue\<close> returns exactly one of "billing", "technical",
  "general". It returns "billing" when the lowercased text contains one of "refund",
  "invoice", "bill", "payment"; otherwise "technical" when it contains one of "error",
  "crash", "down", "restart", "bug", "technical"; otherwise "general". A text with a
  keyword of both lists is billing.
\<close>

theorem classify_issue_cases:
  "classify_issue u \<in> {''billing'', ''technical'', ''general''}
   \<and> ((\<exists>w \<in> {''refund'', ''invoice'', ''bill'', ''payment''}. sublist w (lower u))
        \<longrightarrow> classify_issue u = ''billing'')
   \<and> (\<not> (\<exists>w \<in> {''refund'', ''invoice'', ''bill'', ''payment''}. sublist w (lower u))
        \<and> (\<exists>w \<in> {''error'', ''crash'', ''down'', ''restart'', ''bug'', ''technical''}.
              sublist w (lower u))
        \<longrightarrow> classify_issue u = ''technical'')
   \<and> (\<not> (\<exists>w \<in> {''refund'', ''invoice'', ''bill'', ''payment''}. sublist w (lower u))
        \<and> \<not> (\<exists>w \<in> {''error'', ''crash'', ''down'', ''restart'', ''bug'', ''technical''}.
                sublist w (lower u))
        \<longrightarrow> classify_issue u = ''general'')"
  by (simp add: classify_issue_def Let_def)

theorem classify_issue_cases_witness:
  "sublist ''refund'' (lower ''App CRASHED, I want a Refund'')
   \<and> sublist ''crash'' (lower ''App CRASHED, I want a Refund'')
   \<and> classify_issue ''App CRASHED, I want a Refund'' = ''billing''"
proof -
  have r: "sublist ''refund'' (lower ''App CRASHED, I want a Refund'')"
    by code_simp
  have c: "sublist ''crash'' (lower ''App CRASHED, I want a Refund'')"
    by code_simp
  from r have "\<exists>w \<in> {''refund'', ''invoice'', ''bill'', ''payment''}.
      sublist w (lower ''App CRASHED, I want a Refund'')"
    by blast
  with classify_issue_cases [of "''App CRASHED, I want a Refund''"]
  have "classify_issue ''App CRASHED, I want a Refund'' = ''billing''"
    by blast
  with r c show ?thesis by blast
qed

section \<open>The guardrail pattern\<close>

lemma code_point_less: "code_point c < 256"
  by (simp add: code_point_def)

lemma lower_char_word: "is_word_char (lower_char c) = is_word_char c"
proof -
  have n: "code_point c < 256" by (rule code_point_less)
  have k: "code_point (char_of (code_point c + 32)) = code_point c + 32" if "code_point c \<le> 222"
    using that by (simp add: code_point_def)
  show ?thesis
    unfolding is_word_char_def lower_char_def Let_def
    using n k by (auto simp: code_point_def)
qed

lemma match_literal_eq:
  "match_literal lit (prev, s) =
     (if prefix (lower lit) (lower s)
      then Some (last_opt prev (take (length lit) s), drop (length lit) s) else None)"
proof (induction lit arbitrary: prev s)
  case Nil
  then show ?case by (simp add: last_opt_def lower_def)
next
  case (Cons p ps)
  show ?case
  proof (cases s)
    case Nil
    then show ?thesis by (simp add: lower_def)
  next
    case (Cons c cs)
    then show ?thesis
      using Cons.IH [of "Some c" cs]
      by (auto simp: lower_def last_opt_def)
  qed
qed

lemma find_append:
  "List.find P (xs @ ys) = (case List.find P xs of Some x \<Rightarrow> Some x | None \<Rightarrow> List.find P ys)"
  by (induction xs) auto

lemma word_star_find:
  "word_before prev \<Longrightarrow>
   List.find word_boundary (word_star (prev, s)) =
     Some (last_opt prev (takeWhile is_word_char s), dropWhile is_word_char s)"
proof (induction s arbitrary: prev)
  case Nil
  then show ?case
    by (simp add: word_boundary_def word_after_def last_opt_def)
next
  case (Cons c cs)
  show ?case
  proof (cases "is_word_char c")
    case True
    then have "word_before (Some c)" by (simp add: word_before_def)
    from Cons.IH [OF this] True show ?thesis
      by (simp add: find_append last_opt_def)
  next
    case False
    with Cons.prems show ?thesis
      by (simp add: word_boundary_def word_after_def last_opt_def)
  qed
qed


lemma literal_run:
  assumes w: "\<forall>c \<in> set lit. is_word_char c" and p: "prefix lit (lower s)"
  shows "takeWhile is_word_char s =
           take (length lit) s @ takeWhile is_word_char (drop (length lit) s)"
    and "dropWhile is_word_char s = dropWhile is_word_char (drop (length lit) s)"
    and "\<forall>c \<in> set (take (length lit) s). is_word_char c"
    and "lower s = lit @ lower (drop (length lit) s)"
proof -
  let ?n = "length lit"
  from p have t: "take ?n (lower s) = lit"
    by (auto simp: prefix_def)
  then have l: "lower (take ?n s) = lit"
    by (simp add: lower_def take_map)
  show a: "\<forall>c \<in> set (take ?n s). is_word_char c"
  proof
    fix c assume "c \<in> set (take ?n s)"
    then have "lower_char c \<in> set (lower (take ?n s))"
      by (simp add: lower_def)
    with l w have "is_word_char (lower_char c)" by simp
    then show "is_word_char c" by (simp add: lower_char_word)
  qed
  have s: "s = take ?n s @ drop ?n s" by simp
  from a show "takeWhile is_word_char s = take ?n s @ takeWhile is_word_char (drop ?n s)"
    by (subst s, subst takeWhile_append2) auto
  from a show "dropWhile is_word_char s = dropWhile is_word_char (drop ?n s)"
    by (subst s, subst dropWhile_append2) auto
  have "lower s = lower (take ?n s) @ lower (drop ?n s)"
    by (subst s) (simp only: lower_def map_append)
  with l show "lower s = lit @ lower (drop ?n s)" by simp
qed

lemma prefix_run:
  "\<forall>c \<in> set lit. is_word_char c \<Longrightarrow>
   prefix lit (lower (takeWhile is_word_char s)) = prefix lit (lower s)"
proof (induction s arbitrary: lit)
  case Nil
  then show ?case by simp
next
  case (Cons c cs)
  show ?case
  proof (cases lit)
    case Nil
    then show ?thesis by simp
  next
    case (Cons l ls)
    with Cons.prems have l: "is_word_char l" and ls: "\<forall>c \<in> set ls. is_word_char c"
      by simp_all
    show ?thesis
    proof (cases "is_word_char c")
      case True
      with Cons.IH [OF ls] Cons show ?thesis by (simp add: lower_def)
    next
      case False
      with l have "l \<noteq> lower_char c" using lower_char_word [of c] by auto
      with False Cons show ?thesis by (simp add: lower_def)
    qed
  qed
qed

lemma word_after_run: "word_after s = (takeWhile is_word_char s \<noteq> [])"
  by (cases s) (simp_all add: word_after_def)

lemma BANNED_PHRASES_match_eq:
  "BANNED_PHRASES_match (prev, s) =
     (if \<not> word_before prev \<and> banned_word (takeWhile is_word_char s)
      then Some (Some (last (takeWhile is_word_char s)), dropWhile is_word_char s)
      else None)"
proof -
  define l1 where "l1 = ''sorry''"
  define l2 where "l2 = ''apologiz''"
  let ?w = "takeWhile is_word_char s" and ?r = "dropWhile is_word_char s"
  have w1: "\<forall>c \<in> set l1. is_word_char c" and w2: "\<forall>c \<in> set l2. is_word_char c"
    unfolding l1_def l2_def by (simp_all add: char_class_defs)
  have low: "lower l1 = l1" "lower l2 = l2"
    unfolding l1_def l2_def by code_simp+
  have ne: "l1 \<noteq> []" "l2 \<noteq> []" "hd l1 \<noteq> hd l2"
    unfolding l1_def l2_def by simp_all
  have excl: "\<not> prefix l2 (l1 @ x)" for x
    unfolding l1_def l2_def by simp
  have bm: "BANNED_PHRASES_match (prev, s) =
     (if \<not> word_boundary (prev, s) then None
      else case (if prefix l1 (lower s)
                 then (if word_boundary (last_opt prev (take (length l1) s), drop (length l1) s)
                       then Some (last_opt prev (take (length l1) s), drop (length l1) s)
                       else None)
                 else None) of
             Some e \<Rightarrow> Some e
           | None \<Rightarrow>
               (if prefix l2 (lower s)
                then List.find word_boundary
                       (word_star (last_opt prev (take (length l2) s), drop (length l2) s))
                else None))"
    unfolding BANNED_PHRASES_match_def l1_def [symmetric] l2_def [symmetric]
    by (simp add: match_literal_eq low)
  have bw: "banned_word ?w = (lower ?w = l1 \<or> prefix l2 (lower ?w))"
    by (simp add: banned_word_def l1_def l2_def)
  show ?thesis
  proof (cases "prefix l1 (lower s)")
    case p1: True
    note r = literal_run [OF w1 p1]
    from ne have tne: "take (length l1) s \<noteq> []"
      using r(4) by (cases s) (auto simp: lower_def)
    then have lw: "is_word_char (last (take (length l1) s))"
      using r(3) last_in_set by blast
    have wne: "?w \<noteq> []" using r(1) tne by simp
    have n2: "\<not> prefix l2 (lower s)" using r(4) excl by metis
    have n2w: "\<not> prefix l2 (lower ?w)" using n2 prefix_run [OF w2] by simp
    have lo: "lower (take (length l1) s) = l1"
      using p1 by (auto simp: prefix_def lower_def take_map [symmetric])
    have b0: "word_boundary (prev, s) = (\<not> word_before prev)"
      using wne by (simp add: word_boundary_def word_after_run)
    have e: "last_opt prev (take (length l1) s) = Some (last (take (length l1) s))"
      using tne by (simp add: last_opt_def)
    show ?thesis
    proof (cases "takeWhile is_word_char (drop (length l1) s) = []")
      case True
      then have weq: "?w = take (length l1) s" using r(1) by simp
      have req: "?r = drop (length l1) s"
        using True r(2) takeWhile_dropWhile_id [of is_word_char "drop (length l1) s"]
        by simp
      from True lw have b1: "word_boundary (Some (last (take (length l1) s)), drop (length l1) s)"
        by (simp add: word_after_run word_boundary_def word_before_def)
      have banned: "banned_word ?w" unfolding bw by (simp add: weq lo)
      have lhs: "BANNED_PHRASES_match (prev, s) =
          (if \<not> word_before prev then Some (Some (last (take (length l1) s)), drop (length l1) s)
           else None)"
        unfolding bm by (simp add: b0 e b1 p1)
      show ?thesis
        unfolding lhs using banned by (simp add: weq req)
    next
      case False
      with lw have b1: "\<not> word_boundary (Some (last (take (length l1) s)), drop (length l1) s)"
        by (simp add: word_after_run word_boundary_def word_before_def)
      have "length (take (length l1) s) = length l1"
        using lo by (metis length_map lower_def)
      with False have "length ?w \<noteq> length l1"
        by (subst r(1)) simp
      then have "lower ?w \<noteq> l1" by (auto simp: lower_def)
      with n2w have nb: "\<not> banned_word ?w" by (simp add: bw)
      have lhs: "BANNED_PHRASES_match (prev, s) = None"
        unfolding bm by (simp add: b0 e b1 p1 n2)
      show ?thesis
        unfolding lhs using nb by simp
    qed
  next
    case n1: False
    then have n1w: "lower ?w \<noteq> l1"
      using prefix_run [OF w1, of s] by auto
    show ?thesis
    proof (cases "prefix l2 (lower s)")
      case True
      note r = literal_run [OF w2 True]
      from ne have tne: "take (length l2) s \<noteq> []"
        using r(4) by (cases s) (auto simp: lower_def)
      then have lw: "is_word_char (last (take (length l2) s))"
        using r(3) last_in_set by blast
      have wne: "?w \<noteq> []" using r(1) tne by simp
      have b0: "word_boundary (prev, s) = (\<not> word_before prev)"
        using wne by (simp add: word_boundary_def word_after_run)
      have p2w: "prefix l2 (lower ?w)" using True prefix_run [OF w2] by simp
      then have banned: "banned_word ?w" by (simp add: bw)
      have wb: "word_before (last_opt prev (take (length l2) s))"
        using tne lw by (simp add: last_opt_def word_before_def)
      have la: "last_opt (last_opt prev (take (length l2) s))
                  (takeWhile is_word_char (drop (length l2) s)) = Some (last ?w)"
        using tne by (subst r(1)) (auto simp: last_opt_def)
      have lhs: "BANNED_PHRASES_match (prev, s) =
          (if \<not> word_before prev then Some (Some (last ?w), ?r) else None)"
        unfolding bm by (simp add: b0 n1 True word_star_find [OF wb] la r(2) [symmetric])
      show ?thesis
        unfolding lhs using banned by simp
    next
      case False
      then have "\<not> prefix l2 (lower ?w)" using prefix_run [OF w2] by simp
      with n1w have nb: "\<not> banned_word ?w" by (simp add: bw)
      have lhs: "BANNED_PHRASES_match (prev, s) = None"
        unfolding bm by (simp add: n1 False)
      show ?thesis
        unfolding lhs using nb by simp
    qed
  qed
qed


lemma banned_word_Nil: "\<not> banned_word []"
  by (simp add: banned_word_def lower_def)

lemma BANNED_PHRASES_match_Nil: "BANNED_PHRASES_match (prev, []) = None"
  by (simp add: BANNED_PHRASES_match_eq banned_word_Nil)

lemma BANNED_PHRASES_match_inside: "word_before prev \<Longrightarrow> BANNED_PHRASES_match (prev, s) = None"
  by (simp add: BANNED_PHRASES_match_eq)

lemma BANNED_PHRASES_match_nonword: "\<not> is_word_char c \<Longrightarrow> BANNED_PHRASES_match (prev, c # cs) = None"
  by (simp add: BANNED_PHRASES_match_eq banned_word_Nil)

lemma BANNED_PHRASES_sub_Nil: "BANNED_PHRASES_sub (prev, []) = []"
  by (subst BANNED_PHRASES_sub.simps) (simp add: BANNED_PHRASES_match_Nil)

lemma BANNED_PHRASES_sub_copy:
  "BANNED_PHRASES_match (prev, c # cs) = None \<Longrightarrow> BANNED_PHRASES_sub (prev, c # cs) = c # BANNED_PHRASES_sub (Some c, cs)"
  by (subst BANNED_PHRASES_sub.simps) simp

lemma BANNED_PHRASES_sub_match:
  "BANNED_PHRASES_match (prev, s) = Some e \<Longrightarrow> BANNED_PHRASES_sub (prev, s) = ''(removed)'' @ BANNED_PHRASES_sub e"
  by (subst BANNED_PHRASES_sub.simps) simp

lemma run_BANNED_PHRASES_sub:
  "word_before prev \<Longrightarrow>
   takeWhile is_word_char (BANNED_PHRASES_sub (prev, s)) = takeWhile is_word_char s"
proof (induction s arbitrary: prev)
  case Nil
  then show ?case by (simp add: BANNED_PHRASES_sub_Nil)
next
  case (Cons c cs)
  from Cons.prems have "BANNED_PHRASES_sub (prev, c # cs) = c # BANNED_PHRASES_sub (Some c, cs)"
    by (simp add: BANNED_PHRASES_sub_copy BANNED_PHRASES_match_inside)
  moreover have "takeWhile is_word_char (BANNED_PHRASES_sub (Some c, cs)) = takeWhile is_word_char cs"
    if "is_word_char c"
    using that by (intro Cons.IH) (simp add: word_before_def)
  ultimately show ?case by simp
qed

lemma match_free_fix: "match_free (prev, s) \<Longrightarrow> BANNED_PHRASES_sub (prev, s) = s"
proof (induction s arbitrary: prev)
  case Nil
  then show ?case by (simp add: BANNED_PHRASES_sub_Nil)
next
  case (Cons c cs)
  then show ?case by (simp add: BANNED_PHRASES_sub_copy)
qed

lemma match_free_nonword:
  "s = [] \<or> \<not> is_word_char (hd s) \<Longrightarrow> match_free (prev, s) = match_free (prev', s)"
  by (cases s) (simp_all add: BANNED_PHRASES_match_Nil BANNED_PHRASES_match_nonword)

lemma dropWhile_nonword:
  "dropWhile is_word_char s = [] \<or> \<not> is_word_char (hd (dropWhile is_word_char s))"
  using hd_dropWhile [of is_word_char s] by blast

lemma BANNED_PHRASES_sub_nonword:
  "s = [] \<or> \<not> is_word_char (hd s) \<Longrightarrow>
   BANNED_PHRASES_sub (prev, s) = [] \<or> \<not> is_word_char (hd (BANNED_PHRASES_sub (prev, s)))"
  by (cases s) (auto simp: BANNED_PHRASES_sub_Nil BANNED_PHRASES_sub_copy BANNED_PHRASES_match_nonword)

lemma marker_match_free:
  assumes "\<not> word_before prev" and "t = [] \<or> \<not> is_word_char (hd t)"
    and "match_free (Some CHR '')'', t)"
  shows "match_free (prev, ''(removed)'' @ t)"
proof -
  have run: "takeWhile is_word_char (''removed)'' @ t) = ''removed''"
    by (simp add: char_class_defs)
  have nb: "\<not> banned_word ''removed''"
    unfolding banned_word_def by code_simp
  have w: "word_before (Some c)" if "c \<in> set ''removed''" for c
    using that by (auto simp: word_before_def char_class_defs)
  have p: "\<not> is_word_char CHR ''(''" "\<not> is_word_char CHR '')''"
    by (simp_all add: char_class_defs)
  have first: "BANNED_PHRASES_match (Some CHR ''('', ''removed)'' @ t) = None"
    by (subst BANNED_PHRASES_match_eq) (simp only: run nb, simp)
  show ?thesis
    using assms(3) first
    by (simp add: BANNED_PHRASES_match_nonword p BANNED_PHRASES_match_inside w)
qed

lemma BANNED_PHRASES_sub_match_free: "match_free (fst pos, BANNED_PHRASES_sub pos)"
proof (induction pos rule: BANNED_PHRASES_sub.induct)
  case (1 prev s)
  show ?case
  proof (cases "BANNED_PHRASES_match (prev, s)")
    case None
    show ?thesis
    proof (cases s)
      case Nil
      then show ?thesis by (simp add: BANNED_PHRASES_sub_Nil BANNED_PHRASES_match_Nil)
    next
      case (Cons c cs)
      with None have sub: "BANNED_PHRASES_sub (prev, s) = c # BANNED_PHRASES_sub (Some c, cs)"
        by (simp add: BANNED_PHRASES_sub_copy)
      have ih: "match_free (Some c, BANNED_PHRASES_sub (Some c, cs))"
        using "1.IH"(1) [OF None Cons] by simp
      have "BANNED_PHRASES_match (prev, c # BANNED_PHRASES_sub (Some c, cs)) = None"
      proof (cases "is_word_char c")
        case True
        then have eq: "takeWhile is_word_char (c # BANNED_PHRASES_sub (Some c, cs))
            = takeWhile is_word_char (c # cs)"
          by (simp add: run_BANNED_PHRASES_sub word_before_def)
        from None Cons
        have "\<not> (\<not> word_before prev \<and> banned_word (takeWhile is_word_char (c # cs)))"
          unfolding BANNED_PHRASES_match_eq by (simp del: takeWhile.simps split: if_splits)
        then show ?thesis
          by (simp only: BANNED_PHRASES_match_eq eq if_False)
      next
        case False
        then show ?thesis by (rule BANNED_PHRASES_match_nonword)
      qed
      with ih sub show ?thesis by simp
    qed
  next
    case (Some e)
    then have e: "e = (Some (last (takeWhile is_word_char s)), dropWhile is_word_char s)"
      and nw: "\<not> word_before prev"
      by (auto simp: BANNED_PHRASES_match_eq split: if_splits)
    let ?q = "Some (last (takeWhile is_word_char s))" and ?r = "dropWhile is_word_char s"
    have ih: "match_free (?q, BANNED_PHRASES_sub (?q, ?r))"
      using "1.IH"(2) [OF Some] e by simp
    have nwr: "?r = [] \<or> \<not> is_word_char (hd ?r)" by (rule dropWhile_nonword)
    have t: "BANNED_PHRASES_sub (?q, ?r) = [] \<or> \<not> is_word_char (hd (BANNED_PHRASES_sub (?q, ?r)))"
      using nwr by (rule BANNED_PHRASES_sub_nonword)
    from ih have "match_free (Some CHR '')'', BANNED_PHRASES_sub (?q, ?r))"
      using match_free_nonword [OF t] by blast
    from marker_match_free [OF nw t this] show ?thesis
      using Some e by (simp add: BANNED_PHRASES_sub_match)
  qed
qed

text \<open>What the guardrail does achieve: no position of its output starts a match of the pattern.\<close>

lemma guard_output_match_free: "match_free (None, guard_output x)"
  using BANNED_PHRASES_sub_match_free [of "(None, x)"]
  by (simp add: guard_output_def BANNED_PHRASES_match_Nil)

text \<open>
  C2. The claim: every whole-word occurrence of "sorry" and of any word beginning with
  "apolog" is replaced by "(removed)". The pattern's second alternative is
  \<open>apologiz\w*\<close>, so "apologies", "apology" and "apologise" are not matched and stay in the
  output, while the docstring of \<open>guard_output\<close> promises an output without apologies.
  The code at three such inputs:
\<close>

theorem guard_output_misses_apologies:
  "guard_output ''My apologies for the delay'' = ''My apologies for the delay''
   \<and> guard_output ''Please accept my apology'' = ''Please accept my apology''
   \<and> guard_output ''We apologise'' = ''We apologise''"
  by code_simp

text \<open>
  C8. The guardrail is idempotent: \<open>guard_output (guard_output x) = guard_output x\<close> for
  every text, since the marker "(removed)" brings no new match; and the empty text is
  returned as it is.
\<close>

theorem guard_output_idempotent:
  "guard_output (guard_output x) = guard_output x \<and> guard_output [] = []"
  using match_free_fix [OF BANNED_PHRASES_sub_match_free [of "(None, x)", simplified]]
  by (simp add: guard_output_def)

theorem guard_output_idempotent_witness:
  "guard_output ''Sorry, I apologize!'' = ''(removed), I (removed)!''
   \<and> guard_output ''(removed), I (removed)!'' = ''(removed), I (removed)!''"
proof -
  have e: "guard_output ''Sorry, I apologize!'' = ''(removed), I (removed)!''"
    by code_simp
  from guard_output_idempotent [of "''Sorry, I apologize!''"]
  have "guard_output (guard_output ''Sorry, I apologize!'') = guard_output ''Sorry, I apologize!''"
    by blast
  with e show ?thesis by simp
qed

section \<open>The gated tools\<close>

text \<open>
  C3. For every context, \<open>refund\<close> returns the disabled message exactly when
  \<open>is_premium_user\<close> is false, and the confirmation with the context's name in it
  exactly when it is true. Either way the result is a text: the handler has no
  failing branch.
\<close>

theorem refund_gate:
  "(refund CTX dummy = ''Refund tool disabled: premium membership required.'')
     = (\<not> is_premium_user CTX)
   \<and> (refund CTX dummy
        = ''Refund initiated for '' @ name CTX @ ''. You will receive confirmation via email.'')
     = is_premium_user CTX"
  by (simp add: refund_def refund_is_enabled_def)

theorem refund_gate_witness:
  "refund ((default_context :: unit SupportContext)\<lparr>name := ''Alice''\<rparr>) ''refund''
     = ''Refund tool disabled: premium membership required.''
   \<and> refund ((default_context :: unit SupportContext)\<lparr>name := ''Alice'', is_premium_user := True\<rparr>)
         ''refund''
     = ''Refund initiated for Alice. You will receive confirmation via email.''"
  using refund_gate [of "(default_context :: unit SupportContext)\<lparr>name := ''Alice''\<rparr>" "''refund''"]
    refund_gate [of "(default_context :: unit SupportContext)\<lparr>name := ''Alice'', is_premium_user := True\<rparr>"
      "''refund''"]
  by (simp add: default_context_def)

text \<open>
  C4. For every context, \<open>restart_service\<close> returns the disabled message exactly when
  \<open>issue_type\<close> is not "technical", and the restart confirmation otherwise. The gate
  reads the context of the call: after \<open>issue_type\<close> is changed, the same handler
  answers by the new value.
\<close>

theorem restart_service_gate:
  "(restart_service CTX dummy
      = ''Restart tool disabled: this request is not a technical issue.'')
     = (issue_type CTX \<noteq> Some ''technical'')
   \<and> (restart_service CTX dummy
        = ''Service restart command sent. Please wait ~2 minutes and try again.'')
     = (issue_type CTX = Some ''technical'')
   \<and> restart_service (CTX\<lparr>issue_type := i\<rparr>) dummy
     = (if i = Some ''technical''
        then ''Service restart command sent. Please wait ~2 minutes and try again.''
        else ''Restart tool disabled: this request is not a technical issue.'')"
  by (simp add: restart_service_def restart_service_is_enabled_def)

theorem restart_service_gate_witness:
  "restart_service ((default_context :: unit SupportContext)\<lparr>issue_type := Some ''technical''\<rparr>) ''restart''
     = ''Service restart command sent. Please wait ~2 minutes and try again.''
   \<and> restart_service ((default_context :: unit SupportContext)\<lparr>issue_type := Some ''billing''\<rparr>) ''restart''
     = ''Restart tool disabled: this request is not a technical issue.''
   \<and> restart_service (default_context :: unit SupportContext) ''restart''
     = ''Restart tool disabled: this request is not a technical issue.''"
  using restart_service_gate [of "default_context :: unit SupportContext" "''restart''" "Some ''technical''"]
    restart_service_gate [of "default_context :: unit SupportContext" "''restart''" "Some ''billing''"]
    restart_service_gate [of "default_context :: unit SupportContext" "''restart''" None]
  by (simp add: default_context_def)

section \<open>The dispatcher\<close>

lemma re_search_sublist:
  "re_search alts (prev, s) = (\<exists>a \<in> set alts. sublist (lower a) (lower s))"
proof (induction s arbitrary: prev)
  case Nil
  show ?case
    by (simp add: list_ex_iff match_literal_eq lower_def)
next
  case (Cons c cs)
  have "sublist (lower a) (lower (c # cs))
      = (prefix (lower a) (lower (c # cs)) \<or> sublist (lower a) (lower cs))" for a
    by (simp add: lower_def sublist_Cons_right)
  with Cons show ?case
    by (auto simp: list_ex_iff match_literal_eq)
qed

text \<open>
  C5. The ROUTE step, for every user text \<open>t\<close>. Billing: the billing agent is run on
  "refund" when \<open>t\<close> matches \<open>refund|chargeback|money back\<close> ignoring case, that is when
  the lowercased text contains one of the three, and on "invoice" otherwise. Technical:
  the technical agent is run on "restart" when \<open>t\<close> matches \<open>restart|crash|down|error\<close>
  ignoring case, and on "status" otherwise. General: the general agent is run on \<open>t\<close>
  itself.
\<close>

theorem route_hint:
  "route ''billing'' t =
     (billing_agent,
      if \<exists>w \<in> {''refund'', ''chargeback'', ''money back''}. sublist w (lower t)
      then ''refund'' else ''invoice'')
   \<and> route ''technical'' t =
     (technical_agent,
      if \<exists>w \<in> {''restart'', ''crash'', ''down'', ''error''}. sublist w (lower t)
      then ''restart'' else ''status'')
   \<and> route ''general'' t = (general_agent, t)"
proof -
  have l: "lower ''refund'' = ''refund''" "lower ''chargeback'' = ''chargeback''"
    "lower ''money back'' = ''money back''" "lower ''restart'' = ''restart''"
    "lower ''crash'' = ''crash''" "lower ''down'' = ''down''" "lower ''error'' = ''error''"
    by code_simp+
  show ?thesis
    by (simp add: route_def re_search_sublist l)
qed

theorem route_hint_witness:
  "route ''billing'' ''I want my Money Back'' = (billing_agent, ''refund'')
   \<and> route ''billing'' ''where is my bill'' = (billing_agent, ''invoice'')
   \<and> route ''technical'' ''the app keeps CRASHING'' = (technical_agent, ''restart'')
   \<and> route ''technical'' ''a bug in the page'' = (technical_agent, ''status'')
   \<and> route ''general'' ''how do I change my email'' = (general_agent, ''how do I change my email'')"
proof -
  have a: "sublist ''money back'' (lower ''I want my Money Back'')" by code_simp
  have b: "\<not> (\<exists>w \<in> {''refund'', ''chargeback'', ''money back''}. sublist w (lower ''where is my bill''))"
    by code_simp
  have c: "sublist ''crash'' (lower ''the app keeps CRASHING'')" by code_simp
  have d: "\<not> (\<exists>w \<in> {''restart'', ''crash'', ''down'', ''error''}. sublist w (lower ''a bug in the page''))"
    by code_simp
  from a have a': "\<exists>w \<in> {''refund'', ''chargeback'', ''money back''}. sublist w (lower ''I want my Money Back'')"
    by blast
  from c have c': "\<exists>w \<in> {''restart'', ''crash'', ''down'', ''error''}. sublist w (lower ''the app keeps CRASHING'')"
    by blast
  show ?thesis
    using route_hint [of "''I want my Money Back''"] route_hint [of "''where is my bill''"]
      route_hint [of "''the app keeps CRASHING''"] route_hint [of "''a bug in the page''"]
      route_hint [of "''how do I change my email''"] a' b c' d
    by (simp only: if_True if_False simp_thms)
qed



lemma triage_eq:
  assumes "triage R r CTX t = Inr (issue, CTX1, r1)"
  shows "issue \<in> {''billing'', ''technical'', ''general''}"
    and "CTX1 = CTX\<lparr>issue_type := Some issue, last_agent := Some ''triage''\<rparr>"
  using assms
  by (auto simp: triage_def Let_def split: sum.splits if_splits)

lemma turn_eq:
  assumes t: "triage R r CTX t = Inr (issue, CTX1, r1)"
    and a: "run_with_context R r1 CTX1 (fst (route issue t)) (snd (route issue t))
              = Inr (final, r2)"
  shows "turn R (r, CTX) t =
     Inr ((r2, CTX\<lparr>issue_type := None, last_agent := Some issue\<rparr>),
          [Run triage_agent t CTX, Print_handoff issue,
           Run (fst (route issue t)) (snd (route issue t)) CTX1, Print_answer issue final])"
proof -
  note c = triage_eq(2) [OF t]
  obtain ag hint where rt: "route issue t = (ag, hint)" by (cases "route issue t")
  with a have "run_with_context R r1 CTX1 ag hint = Inr (final, r2)" by simp
  with t rt show ?thesis
    unfolding turn_def by (simp add: c Let_def)
qed

lemma turn_raise_second:
  assumes t: "triage R r CTX t = Inr (issue, CTX1, r1)"
    and a: "run_with_context R r1 CTX1 (fst (route issue t)) (snd (route issue t)) = Inl e"
  shows "turn R (r, CTX) t =
     Inl (e, (r1, CTX1),
          [Run triage_agent t CTX, Print_handoff issue,
           Run (fst (route issue t)) (snd (route issue t)) CTX1])"
proof -
  obtain ag hint where rt: "route issue t = (ag, hint)" by (cases "route issue t")
  with a have "run_with_context R r1 CTX1 ag hint = Inl e" by simp
  with t rt show ?thesis
    unfolding turn_def by simp
qed

lemma turn_raise_first:
  assumes "triage R r CTX t = Inl e"
  shows "turn R (r, CTX) t = Inl (e, (r, CTX), [Run triage_agent t CTX])"
  using assms unfolding turn_def by simp

lemma turn_Inr:
  assumes "turn R (r, CTX) t = Inr ((r2, CTX2), evs)"
  shows "\<exists>issue CTX1 r1 final.
           triage R r CTX t = Inr (issue, CTX1, r1)
         \<and> run_with_context R r1 CTX1 (fst (route issue t)) (snd (route issue t))
             = Inr (final, r2)
         \<and> CTX2 = CTX\<lparr>issue_type := None, last_agent := Some issue\<rparr>
         \<and> evs = [Run triage_agent t CTX, Print_handoff issue,
                   Run (fst (route issue t)) (snd (route issue t)) CTX1,
                   Print_answer issue final]"
proof (cases "triage R r CTX t")
  case (Inl e)
  from turn_raise_first [OF Inl] assms show ?thesis by simp
next
  case (Inr x)
  obtain issue CTX1 r1 where x: "x = (issue, CTX1, r1)" by (cases x) auto
  with Inr have t: "triage R r CTX t = Inr (issue, CTX1, r1)" by simp
  show ?thesis
  proof (cases "run_with_context R r1 CTX1 (fst (route issue t)) (snd (route issue t))")
    case (Inl e)
    from turn_raise_second [OF t Inl] assms show ?thesis by simp
  next
    case (Inr y)
    obtain final r2' where "y = (final, r2')" by (cases y)
    with Inr have a: "run_with_context R r1 CTX1 (fst (route issue t)) (snd (route issue t))
        = Inr (final, r2')" by simp
    from turn_eq [OF t a] assms t a show ?thesis by auto
  qed
qed

lemma turn_Inl:
  assumes "turn R (r, CTX) t = Inl (e, (r', CTX'), evs)"
  shows "(CTX' = CTX \<and> evs = [Run triage_agent t CTX])
       \<or> (\<exists>issue. CTX' = CTX\<lparr>issue_type := Some issue, last_agent := Some ''triage''\<rparr>
            \<and> evs = [Run triage_agent t CTX, Print_handoff issue,
                      Run (fst (route issue t)) (snd (route issue t)) CTX'])"
proof (cases "triage R r CTX t")
  case (Inl e')
  from turn_raise_first [OF Inl] assms show ?thesis by simp
next
  case (Inr x)
  obtain issue CTX1 r1 where x: "x = (issue, CTX1, r1)" by (cases x) auto
  with Inr have t: "triage R r CTX t = Inr (issue, CTX1, r1)" by simp
  show ?thesis
  proof (cases "run_with_context R r1 CTX1 (fst (route issue t)) (snd (route issue t))")
    case (Inl e')
    from turn_raise_second [OF t Inl] assms triage_eq(2) [OF t] show ?thesis by auto
  next
    case (Inr y)
    obtain final r2' where "y = (final, r2')" by (cases y)
    with Inr have a: "run_with_context R r1 CTX1 (fst (route issue t)) (snd (route issue t))
        = Inr (final, r2')" by simp
    from turn_eq [OF t a] assms show ?thesis by simp
  qed
qed

lemma loop_body_continue:
  assumes "loop_body R st line = Inr (Continue, st', evs)"
  shows "lower (strip line) \<notin> {''exit'', ''quit''}" and "turn R st (strip line) = Inr (st', evs)"
  using assms
  by (auto simp: loop_body_def Let_def split: if_splits sum.splits)





section \<open>The turn and the session\<close>

text \<open>
  C6. When the loop body has completed a turn and goes back to read the next line, the
  context's \<open>issue_type\<close> is unset and its \<open>last_agent\<close> is the category of the turn: the
  one shown in the handoff line and under which the agent was routed and run.
\<close>

theorem turn_reset:
  assumes "loop_body R (r, CTX) line = Inr (Continue, (r', CTX'), evs)"
  shows "\<exists>c final.
           c \<in> {''billing'', ''technical'', ''general''}
         \<and> evs = [Run triage_agent (strip line) CTX, Print_handoff c,
                   Run (fst (route c (strip line))) (snd (route c (strip line)))
                     (CTX\<lparr>issue_type := Some c, last_agent := Some ''triage''\<rparr>),
                   Print_answer c final]
         \<and> issue_type CTX' = None \<and> last_agent CTX' = Some c"
proof -
  from loop_body_continue(2) [OF assms]
  have t: "turn R (r, CTX) (strip line) = Inr ((r', CTX'), evs)" .
  from turn_Inr [OF t] obtain issue CTX1 r1 final where
    tr: "triage R r CTX (strip line) = Inr (issue, CTX1, r1)" and
    c: "CTX' = CTX\<lparr>issue_type := None, last_agent := Some issue\<rparr>" and
    e: "evs = [Run triage_agent (strip line) CTX, Print_handoff issue,
               Run (fst (route issue (strip line))) (snd (route issue (strip line))) CTX1,
               Print_answer issue final]"
    by blast
  with triage_eq(1,2) [OF tr] show ?thesis by auto
qed

theorem turn_reset_witness:
  "\<exists>CTX' evs.
     loop_body rule_runner ((), (default_context :: unit SupportContext)\<lparr>name := ''Alice''\<rparr>)
       ''  the app keeps crashing'' = Inr (Continue, ((), CTX'), evs)
     \<and> issue_type CTX' = None \<and> last_agent CTX' = Some ''technical''"
proof -
  let ?alice = "(default_context :: unit SupportContext)\<lparr>name := ''Alice''\<rparr>"
  have s: "strip ''  the app keeps crashing'' = ''the app keeps crashing''" by code_simp
  have nl: "lower ''the app keeps crashing'' = ''the app keeps crashing''" by code_simp
  have cl: "classify_issue ''the app keeps crashing'' = ''technical''" by code_simp
  have g1: "guard_output ''technical'' = ''technical''" by code_simp
  have st: "lower (strip ''technical'') = ''technical''" by code_simp
  have rt: "route ''technical'' ''the app keeps crashing'' = (technical_agent, ''restart'')"
    by code_simp
  have g2: "guard_output ''Service restart command sent. Please wait ~2 minutes and try again.''
      = ''Service restart command sent. Please wait ~2 minutes and try again.''"
    by code_simp
  have h: "loop_body rule_runner ((), ?alice) ''  the app keeps crashing'' =
      Inr (Continue, ((), ?alice\<lparr>issue_type := None, last_agent := Some ''technical''\<rparr>),
           [Run triage_agent ''the app keeps crashing'' ?alice, Print_handoff ''technical'',
            Run technical_agent ''restart''
              (?alice\<lparr>issue_type := Some ''technical'', last_agent := Some ''triage''\<rparr>),
            Print_answer ''technical''
              (Some ''Service restart command sent. Please wait ~2 minutes and try again.'')])"
    by (simp add: loop_body_def turn_def triage_def run_with_context_def rule_runner_def
        restart_service_def restart_service_is_enabled_def Let_def s nl cl g1 st rt g2)
  from turn_reset [OF h] have
    "issue_type (?alice\<lparr>issue_type := None, last_agent := Some ''technical''\<rparr>) = None
     \<and> last_agent (?alice\<lparr>issue_type := None, last_agent := Some ''technical''\<rparr>)
         = Some ''technical''"
    by auto
  with h show ?thesis by blast
qed

lemma turn_frame:
  "turn R (r, CTX) t = Inr ((r', CTX'), evs) \<or> turn R (r, CTX) t = Inl (e, (r', CTX'), evs)
   \<Longrightarrow> \<exists>i l. CTX' = CTX\<lparr>issue_type := i, last_agent := l\<rparr>"
proof (erule disjE)
  assume "turn R (r, CTX) t = Inr ((r', CTX'), evs)"
  from turn_Inr [OF this] show ?thesis by blast
next
  assume "turn R (r, CTX) t = Inl (e, (r', CTX'), evs)"
  from turn_Inl [OF this] show ?thesis
  proof
    assume "CTX' = CTX \<and> evs = [Run triage_agent t CTX]"
    then have "CTX' = CTX\<lparr>issue_type := issue_type CTX, last_agent := last_agent CTX\<rparr>"
      by simp
    then show ?thesis by blast
  next
    assume "\<exists>issue. CTX' = CTX\<lparr>issue_type := Some issue, last_agent := Some ''triage''\<rparr>
            \<and> evs = [Run triage_agent t CTX, Print_handoff issue,
                      Run (fst (route issue t)) (snd (route issue t)) CTX']"
    then show ?thesis by blast
  qed
qed

lemma loop_body_frame:
  assumes "loop_body R (r, CTX) line = Inr (k, (r', CTX'), evs)
         \<or> loop_body R (r, CTX) line = Inl (e, (r', CTX'), evs)"
  shows "\<exists>i l. CTX' = CTX\<lparr>issue_type := i, last_agent := l\<rparr>"
proof (cases "lower (strip line) \<in> {''exit'', ''quit''}")
  case True
  with assms have "CTX' = CTX" by (simp add: loop_body_def Let_def)
  then have "CTX' = CTX\<lparr>issue_type := issue_type CTX, last_agent := last_agent CTX\<rparr>"
    by simp
  then show ?thesis by blast
next
  case False
  with assms have "turn R (r, CTX) (strip line) = Inr ((r', CTX'), evs)
      \<or> turn R (r, CTX) (strip line) = Inl (e, (r', CTX'), evs)"
    by (auto simp: loop_body_def Let_def split: sum.splits)
  then show ?thesis by (rule turn_frame)
qed

lemma session_loop_frame:
  "session_loop R (r, CTX) lines = (out, (r', CTX'), evs) \<Longrightarrow>
   \<exists>i l. CTX' = CTX\<lparr>issue_type := i, last_agent := l\<rparr>"
proof (induction lines arbitrary: r CTX out r' CTX' evs)
  case Nil
  then have "CTX' = CTX\<lparr>issue_type := issue_type CTX, last_agent := last_agent CTX\<rparr>"
    by simp
  then show ?case by blast
next
  case (Cons line lines)
  show ?case
  proof (cases "loop_body R (r, CTX) line")
    case (Inl x)
    obtain e r1 CTX1 evs1 where x: "x = (e, (r1, CTX1), evs1)" by (cases x) auto
    with Inl have l: "loop_body R (r, CTX) line = Inl (e, (r1, CTX1), evs1)" by simp
    with Cons.prems have "CTX' = CTX1" by simp
    with loop_body_frame [OF disjI2 [OF l]] show ?thesis by blast
  next
    case (Inr res)
    obtain k r1 CTX1 evs1 where res: "res = (k, (r1, CTX1), evs1)"
      by (cases res) auto
    from Inr res have l: "loop_body R (r, CTX) line = Inr (k, (r1, CTX1), evs1)" by simp
    from loop_body_frame [OF disjI1 [OF l]] obtain i l where
      c1: "CTX1 = CTX\<lparr>issue_type := i, last_agent := l\<rparr>" by blast
    show ?thesis
    proof (cases k)
      case Break
      with Cons.prems Inr res have "CTX' = CTX1" by simp
      with c1 show ?thesis by blast
    next
      case Continue
      with Cons.prems Inr res obtain out2 evs2 where
        "session_loop R (r1, CTX1) lines = (out2, (r', CTX'), evs2)"
        by (auto split: prod.splits)
      from Cons.IH [OF this] obtain i' l' where
        "CTX' = CTX1\<lparr>issue_type := i', last_agent := l'\<rparr>" by blast
      with c1 have "CTX' = CTX\<lparr>issue_type := i', last_agent := l'\<rparr>" by simp
      then show ?thesis by blast
    qed
  qed
qed

text \<open>
  C9. A turn writes only \<open>issue_type\<close> and \<open>last_agent\<close>: \<open>name\<close>, \<open>is_premium_user\<close> and
  \<open>extra\<close> are, at the end of the turn and in every context an agent was run on during
  it, what they were at its start. The same holds from the start of the loop to its end,
  over any lines of input; so \<open>name\<close> and \<open>is_premium_user\<close> stay what the two prompts of
  the session start made them, and \<open>extra\<close> what it was before.
\<close>

theorem context_frame:
  "(turn R (r, CTX) t = Inr ((r1, CTX1), evs1) \<longrightarrow>
      (\<exists>i l. CTX1 = CTX\<lparr>issue_type := i, last_agent := l\<rparr>)
      \<and> name CTX1 = name CTX \<and> is_premium_user CTX1 = is_premium_user CTX
      \<and> extra CTX1 = extra CTX
      \<and> (\<forall>a x c. Run a x c \<in> set evs1 \<longrightarrow>
            name c = name CTX \<and> is_premium_user c = is_premium_user CTX
            \<and> extra c = extra CTX))
   \<and> (session_loop R (r, CTX) lines = (out2, (r2, CTX2), evs2) \<longrightarrow>
      (\<exists>i l. CTX2 = CTX\<lparr>issue_type := i, last_agent := l\<rparr>)
      \<and> name CTX2 = name CTX \<and> is_premium_user CTX2 = is_premium_user CTX
      \<and> extra CTX2 = extra CTX)
   \<and> (session_loop R (r, session_start CTX0 name_line premium_line) lines
         = (out3, (r3, CTX3), evs3) \<longrightarrow>
      is_premium_user CTX3 = prefix ''y'' (lower (strip premium_line))
      \<and> name CTX3 = (if strip name_line = [] then ''Guest'' else strip name_line)
      \<and> extra CTX3 = extra CTX0)"
proof (intro conjI impI)
  assume t: "turn R (r, CTX) t = Inr ((r1, CTX1), evs1)"
  from turn_Inr [OF t] obtain issue C r' final where
    tr: "triage R r CTX t = Inr (issue, C, r')" and
    c: "CTX1 = CTX\<lparr>issue_type := None, last_agent := Some issue\<rparr>" and
    e: "evs1 = [Run triage_agent t CTX, Print_handoff issue,
                Run (fst (route issue t)) (snd (route issue t)) C, Print_answer issue final]"
    by blast
  from c show "\<exists>i l. CTX1 = CTX\<lparr>issue_type := i, last_agent := l\<rparr>" by blast
  from c show "name CTX1 = name CTX" "is_premium_user CTX1 = is_premium_user CTX"
    "extra CTX1 = extra CTX" by simp_all
  from e triage_eq(2) [OF tr]
  show "\<forall>a x c. Run a x c \<in> set evs1 \<longrightarrow>
          name c = name CTX \<and> is_premium_user c = is_premium_user CTX \<and> extra c = extra CTX"
    by auto
next
  assume "session_loop R (r, CTX) lines = (out2, (r2, CTX2), evs2)"
  from session_loop_frame [OF this] obtain i l where
    c: "CTX2 = CTX\<lparr>issue_type := i, last_agent := l\<rparr>" by blast
  then show "\<exists>i l. CTX2 = CTX\<lparr>issue_type := i, last_agent := l\<rparr>" by blast
  from c show "name CTX2 = name CTX" "is_premium_user CTX2 = is_premium_user CTX"
    "extra CTX2 = extra CTX" by simp_all
next
  assume "session_loop R (r, session_start CTX0 name_line premium_line) lines
            = (out3, (r3, CTX3), evs3)"
  from session_loop_frame [OF this] obtain i l where
    c: "CTX3 = (session_start CTX0 name_line premium_line)\<lparr>issue_type := i, last_agent := l\<rparr>"
    by blast
  then show "is_premium_user CTX3 = prefix ''y'' (lower (strip premium_line))"
    "name CTX3 = (if strip name_line = [] then ''Guest'' else strip name_line)"
    "extra CTX3 = extra CTX0"
    by (simp_all add: session_start_def Let_def)
qed

theorem context_frame_witness:
  "(\<exists>CTX1 evs1.
      turn rule_runner ((), (default_context :: unit SupportContext)\<lparr>name := ''Alice''\<rparr>)
        ''I want a refund for my invoice'' = Inr (((), CTX1), evs1)
      \<and> name CTX1 = ''Alice'' \<and> \<not> is_premium_user CTX1 \<and> extra CTX1 = Map.empty
      \<and> last (evs1) = Print_answer ''billing''
           (Some ''Refund tool disabled: premium membership required.''))
   \<and> (\<exists>CTX3 evs3.
      session_loop rule_runner
        ((), session_start (default_context :: unit SupportContext) '' Alice '' ''Yes'')
        [''please refund my payment'', ''exit'', ''never read'']
        = (Exited, ((), CTX3), evs3)
      \<and> name CTX3 = ''Alice'' \<and> is_premium_user CTX3 \<and> extra CTX3 = Map.empty)"
proof -
  let ?alice = "(default_context :: unit SupportContext)\<lparr>name := ''Alice''\<rparr>"
  let ?u = "''I want a refund for my invoice''"
  have cl: "classify_issue ?u = ''billing''" by code_simp
  have g1: "guard_output ''billing'' = ''billing''" by code_simp
  have st: "lower (strip ''billing'') = ''billing''" by code_simp
  have rt: "route ''billing'' ?u = (billing_agent, ''refund'')" by code_simp
  have g2: "guard_output ''Refund tool disabled: premium membership required.''
      = ''Refund tool disabled: premium membership required.''"
    by code_simp
  have t: "turn rule_runner ((), ?alice) ?u =
      Inr (((), ?alice\<lparr>issue_type := None, last_agent := Some ''billing''\<rparr>),
           [Run triage_agent ?u ?alice, Print_handoff ''billing'',
            Run billing_agent ''refund''
              (?alice\<lparr>issue_type := Some ''billing'', last_agent := Some ''triage''\<rparr>),
            Print_answer ''billing''
              (Some ''Refund tool disabled: premium membership required.'')])"
    by (simp add: turn_def triage_def run_with_context_def rule_runner_def
        refund_def refund_is_enabled_def Let_def cl g1 st rt g2 default_context_def)
  let ?v = "''please refund my payment''"
  let ?prem = "session_start (default_context :: unit SupportContext) '' Alice '' ''Yes''"
  have n: "strip '' Alice '' = ''Alice''" "prefix ''y'' (lower (strip ''Yes''))"
    by code_simp+
  have p: "name ?prem = ''Alice''" "is_premium_user ?prem" "issue_type ?prem = None"
    by (simp_all add: session_start_def Let_def n default_context_def)
  have sv: "strip ?v = ?v" "lower ?v = ?v"
    "strip ''exit'' = ''exit''" "lower ''exit'' = ''exit''"
    by code_simp+
  have clv: "classify_issue ?v = ''billing''" by code_simp
  have rtv: "route ''billing'' ?v = (billing_agent, ''refund'')" by code_simp
  have g3: "guard_output ''Refund initiated for Alice. You will receive confirmation via email.''
      = ''Refund initiated for Alice. You will receive confirmation via email.''"
    by code_simp
  have l1: "loop_body rule_runner ((), ?prem) ?v =
      Inr (Continue, ((), ?prem\<lparr>issue_type := None, last_agent := Some ''billing''\<rparr>),
           [Run triage_agent ?v ?prem, Print_handoff ''billing'',
            Run billing_agent ''refund''
              (?prem\<lparr>issue_type := Some ''billing'', last_agent := Some ''triage''\<rparr>),
            Print_answer ''billing''
              (Some ''Refund initiated for Alice. You will receive confirmation via email.'')])"
    by (simp add: loop_body_def turn_def triage_def run_with_context_def rule_runner_def
        refund_def refund_is_enabled_def Let_def sv clv g1 st rtv g3 p)
  have l2: "loop_body rule_runner st ''exit'' = Inr (Break, st, [Print_goodbye])"
    for st :: "unit \<times> unit SupportContext"
    by (simp add: loop_body_def Let_def sv)
  have s: "session_loop rule_runner ((), ?prem) [?v, ''exit'', ''never read''] =
      (Exited, ((), ?prem\<lparr>issue_type := None, last_agent := Some ''billing''\<rparr>),
       [Run triage_agent ?v ?prem, Print_handoff ''billing'',
        Run billing_agent ''refund''
          (?prem\<lparr>issue_type := Some ''billing'', last_agent := Some ''triage''\<rparr>),
        Print_answer ''billing''
          (Some ''Refund initiated for Alice. You will receive confirmation via email.''),
        Print_goodbye])"
    by (simp add: l1 l2)
  note f = context_frame [of rule_runner "()" ?alice ?u "()" _ _
      "[?v, ''exit'', ''never read'']" _ _ _ _ "default_context" "'' Alice ''" "''Yes''"
      Exited "()" _ _]
  from f t have a: "name (?alice\<lparr>issue_type := None, last_agent := Some ''billing''\<rparr>) = name ?alice
      \<and> is_premium_user (?alice\<lparr>issue_type := None, last_agent := Some ''billing''\<rparr>)
          = is_premium_user ?alice
      \<and> extra (?alice\<lparr>issue_type := None, last_agent := Some ''billing''\<rparr>) = extra ?alice"
    by blast
  from f s n have b:
    "is_premium_user (?prem\<lparr>issue_type := None, last_agent := Some ''billing''\<rparr>)
     \<and> name (?prem\<lparr>issue_type := None, last_agent := Some ''billing''\<rparr>) = ''Alice''
     \<and> extra (?prem\<lparr>issue_type := None, last_agent := Some ''billing''\<rparr>)
         = extra (default_context :: unit SupportContext)"
    by (simp del: session_loop.simps)
  have d: "name ?alice = ''Alice''" "\<not> is_premium_user ?alice" "extra ?alice = Map.empty"
    "extra (default_context :: unit SupportContext) = Map.empty"
    by (simp_all add: default_context_def)
  from a d t have "\<exists>CTX1 evs1.
      turn rule_runner ((), ?alice) ?u = Inr (((), CTX1), evs1)
      \<and> name CTX1 = ''Alice'' \<and> \<not> is_premium_user CTX1 \<and> extra CTX1 = Map.empty
      \<and> last (evs1) = Print_answer ''billing''
           (Some ''Refund tool disabled: premium membership required.'')"
    by simp
  moreover from b d s have "\<exists>CTX3 evs3.
      session_loop rule_runner ((), ?prem) [?v, ''exit'', ''never read'']
        = (Exited, ((), CTX3), evs3)
      \<and> name CTX3 = ''Alice'' \<and> is_premium_user CTX3 \<and> extra CTX3 = Map.empty"
    by (simp del: session_loop.simps)
  ultimately show ?thesis by blast
qed





end
